theory Spec2Isabelle
  imports Main "HOL-Library.Word"
begin

section \<open>Messages of the LED control service\<close>

text \<open>
  Modelled from the spec: the message types \<open>LedColor\<close>, \<open>LedRequest\<close> and \<open>LedResponse\<close>
  are declared in \<open>LedControl.hpp\<close>, which is generated from the interface description
  and is not among the sources. Their fields are the ones the sources read and write
  through the accessors \<open>color()\<close>, \<open>state()\<close>, \<open>request_id()\<close>, \<open>success()\<close> and
  \<open>message()\<close>, with the types of the spec's message shapes: the colour is one of RED,
  GREEN, BLUE (the three cases of \<open>colorToString\<close>) and a request id is an unsigned
  64-bit integer. The record fields carry a prefix because both records have a colour, a
  state and a request id.

  The client's \<open>request_counter\<close> and the keys of its table are \<open>unsigned long\<close>, 64
  bits wide on the LP64 platforms the DDS library is built for. Request ids are therefore
  64-bit words: \<open>+\<close> wraps around and \<open><\<close> compares them as unsigned numbers.
\<close>

datatype LedColor = RED | GREEN | BLUE

type_synonym u64 = "64 word"

record LedRequest =
  req_color :: LedColor
  req_state :: bool
  req_request_id :: u64

record LedResponse =
  resp_success :: bool
  resp_message :: string
  resp_color :: LedColor
  resp_state :: bool
  resp_request_id :: u64

section \<open>Server: \<open>LedServer::processRequest\<close>\<close>

text \<open>
  The server keeps \<open>bool led_states[3]\<close>, initially all \<open>false\<close>. A write through an
  index outside the array is undefined behaviour in C++; in the model it is the error
  \<open>OutOfBounds\<close>, and a write that succeeds returns the updated array.
\<close>

datatype error = OutOfBounds

record LedServer =
  led_states :: "bool list"

definition LedServer_init :: LedServer where
  "LedServer_init = \<lparr>led_states = [False, False, False]\<rparr>"

text \<open>
  Modelled from the spec: the enumerators' numeric values are declared in
  \<open>LedControl.hpp\<close>, which is generated from the interface description and is not among
  the sources. The spec lists the enumeration as RED, GREEN, BLUE and describes the array
  as indexed by the enumeration cast to an integer; the server's own comment on
  \<open>led_states\<close> and its display routine (\<open>led_states[0]\<close> is printed as RED,
  \<open>led_states[1]\<close> as GREEN, \<open>led_states[2]\<close> as BLUE) fix the same numbering. This is
  \<open>static_cast<int>(request.color())\<close>.
\<close>

fun static_cast_int :: "LedColor \<Rightarrow> int" where
  "static_cast_int RED = 0"
| "static_cast_int GREEN = 1"
| "static_cast_int BLUE = 2"

text \<open>\<open>a[i] = v\<close> on a C array: defined only for an index inside the array.\<close>

definition array_write :: "'a list \<Rightarrow> int \<Rightarrow> 'a \<Rightarrow> error + 'a list" where
  "array_write a i v =
     (if 0 \<le> i \<and> i < int (length a) then Inr (a[nat i := v]) else Inl OutOfBounds)"

text \<open>
  \<open>processRequest\<close> writes the requested state into the array, builds the response and
  hands it to the response writer; the model returns the new server state and the response
  written. Console output and the 10 ms delay are left out.
\<close>

definition processRequest :: "LedServer \<Rightarrow> LedRequest \<Rightarrow> error + (LedServer \<times> LedResponse)" where
  "processRequest srv request =
     (let color_index = static_cast_int (req_color request) in
      case array_write (led_states srv) color_index (req_state request) of
        Inl e \<Rightarrow> Inl e
      | Inr a \<Rightarrow>
          Inr (srv\<lparr>led_states := a\<rparr>,
               \<lparr>resp_success = True,
                resp_message = ''LED control successful'',
                resp_color = req_color request,
                resp_state = req_state request,
                resp_request_id = req_request_id request\<rparr>))"

text \<open>The state a colour has in the array: \<open>led_states[static_cast<int>(c)]\<close>.\<close>

definition led_state_of :: "LedServer \<Rightarrow> LedColor \<Rightarrow> bool" where
  "led_state_of srv c = led_states srv ! nat (static_cast_int c)"

section \<open>Client: the pending-request table\<close>

text \<open>
  \<open>pending_requests\<close> is a \<open>std::map\<close> from request id to the \<open>steady_clock\<close> reading
  taken when the request was sent. A \<open>std::map\<close> keeps its entries in increasing key
  order and is traversed in that order, so the model is an association list kept
  strictly sorted by key. An iterator is a position in that list, and the position
  \<open>length m\<close> is \<open>end()\<close>.

  Readings of \<open>steady_clock\<close> and their differences are tick counts, nanoseconds in the
  GNU and LLVM libraries. They are integers here without a bound: the 64-bit count of
  the library holds some 292 years of nanoseconds.
\<close>

type_synonym time_point = int

type_synonym pending_map = "(u64 \<times> time_point) list"

text \<open>The invariant of the table: keys strictly increasing, hence no key twice.\<close>

definition map_wf :: "pending_map \<Rightarrow> bool" where
  "map_wf m = sorted_wrt (<) (map fst m)"

text \<open>\<open>m.find(k)\<close>: the position of the entry with key \<open>k\<close>, or \<open>end()\<close>.\<close>

fun map_find :: "u64 \<Rightarrow> pending_map \<Rightarrow> nat" where
  "map_find k [] = 0"
| "map_find k (e # m) = (if fst e = k then 0 else Suc (map_find k m))"

text \<open>\<open>m.erase(it)\<close>: removes the entry at the position; the entries after it move up.\<close>

definition map_erase :: "nat \<Rightarrow> pending_map \<Rightarrow> pending_map" where
  "map_erase it m = take it m @ drop (Suc it) m"

text \<open>\<open>m[k] = v\<close>: overwrites the entry with key \<open>k\<close>, or inserts one in key order.\<close>

fun map_assign :: "u64 \<Rightarrow> time_point \<Rightarrow> pending_map \<Rightarrow> pending_map" where
  "map_assign k v [] = [(k, v)]"
| "map_assign k v (e # m) =
     (if k < fst e then (k, v) # e # m
      else if k = fst e then (k, v) # m
      else e # map_assign k v m)"

section \<open>Client: \<open>LedClient::sendRequest\<close> and \<open>LedClient::checkResponses\<close>\<close>

record LedClient =
  request_counter :: u64
  pending_requests :: pending_map

definition LedClient_init :: LedClient where
  "LedClient_init = \<lparr>request_counter = 0, pending_requests = []\<rparr>"

text \<open>
  \<open>sendRequest\<close> pre-increments the counter, writes the request and records the clock
  reading \<open>now\<close> under the new id. The model returns the new client state and the request
  handed to the request writer.
\<close>

definition sendRequest :: "LedClient \<Rightarrow> LedColor \<Rightarrow> bool \<Rightarrow> time_point \<Rightarrow> LedClient \<times> LedRequest" where
  "sendRequest cl color state now =
     (let counter = request_counter cl + 1;
          request = \<lparr>req_color = color, req_state = state, req_request_id = counter\<rparr>
      in (cl\<lparr>request_counter := counter,
             pending_requests := map_assign (req_request_id request) now (pending_requests cl)\<rparr>,
          request))"

text \<open>
  A sample taken from the response reader: the validity flag of its info and its data.
  What \<open>checkResponses\<close> prints is modelled as events: the block printed for a matched
  response (the response's fields and the latency in milliseconds) and the line printed
  for a request that timed out.
\<close>

record ResponseSample =
  sample_valid :: bool
  sample_data :: LedResponse

datatype Event = MatchResult LedResponse int | TimeoutEvent u64

text \<open>
  \<open>duration_cast<milliseconds>\<close> of a tick count: integer division that truncates
  towards zero.
\<close>

definition duration_cast_ms :: "int \<Rightarrow> int" where
  "duration_cast_ms d = (if 0 \<le> d then d div 1000000 else - ((- d) div 1000000))"

definition five_seconds :: int where
  "five_seconds = 5000000000"

text \<open>
  The first loop of \<open>checkResponses\<close>, over the samples taken. Each sample comes with the
  clock reading that \<open>steady_clock::now()\<close> returns while it is handled (the loop reads
  the clock once for every matched response).
\<close>

fun checkResponses_drain ::
  "pending_map \<Rightarrow> (ResponseSample \<times> time_point) list \<Rightarrow> pending_map \<times> Event list" where
  "checkResponses_drain m [] = (m, [])"
| "checkResponses_drain m ((sample, now) # samples) =
     (if sample_valid sample then
        (let response = sample_data sample;
             it = map_find (resp_request_id response) m
         in if it \<noteq> length m then
              (let latency = duration_cast_ms (now - snd (m ! it));
                   (m', evs) = checkResponses_drain (map_erase it m) samples
               in (m', MatchResult response latency # evs))
            else checkResponses_drain m samples)
      else checkResponses_drain m samples)"

text \<open>
  The second loop of \<open>checkResponses\<close>: the iterator \<open>it\<close> walks the table; an entry older
  than five seconds is reported and erased, and \<open>erase\<close> returns the iterator to the
  entry that followed it, which is the same position in the shortened list.
\<close>

function checkResponses_sweep ::
  "nat \<Rightarrow> time_point \<Rightarrow> pending_map \<Rightarrow> pending_map \<times> Event list" where
  "checkResponses_sweep it now m =
     (if it < length m then
        (if now - snd (m ! it) > five_seconds then
           (let (m', evs) = checkResponses_sweep it now (map_erase it m)
            in (m', TimeoutEvent (fst (m ! it)) # evs))
         else checkResponses_sweep (Suc it) now m)
      else (m, []))"
  by pat_completeness auto
termination
  by (relation "measure (\<lambda>(it, now, m). length m - it)") (auto simp: map_erase_def)

declare checkResponses_sweep.simps [simp del]

definition checkResponses ::
  "LedClient \<Rightarrow> (ResponseSample \<times> time_point) list \<Rightarrow> time_point \<Rightarrow> LedClient \<times> Event list" where
  "checkResponses cl samples now =
     (let (m1, matched) = checkResponses_drain (pending_requests cl) samples;
          (m2, timed_out) = checkResponses_sweep 0 now m1
      in (cl\<lparr>pending_requests := m2\<rparr>, matched @ timed_out))"

section \<open>Client sessions\<close>

text \<open>
  A session is a sequence of calls on one \<open>LedClient\<close>: \<open>run\<close> sends three requests and
  then calls \<open>checkResponses\<close> on every tick, and \<open>manualControl\<close> sends a request at any
  time. Running a session gives the final state, the requests written and the events.
\<close>

datatype client_call =
  SendRequest LedColor bool time_point
| CheckResponses "(ResponseSample \<times> time_point) list" time_point

fun run_client :: "LedClient \<Rightarrow> client_call list \<Rightarrow> LedClient \<times> LedRequest list \<times> Event list" where
  "run_client cl [] = (cl, [], [])"
| "run_client cl (SendRequest color state now # calls) =
     (let (cl1, request) = sendRequest cl color state now;
          (cl2, requests, evs) = run_client cl1 calls
      in (cl2, request # requests, evs))"
| "run_client cl (CheckResponses samples now # calls) =
     (let (cl1, evs1) = checkResponses cl samples now;
          (cl2, requests, evs) = run_client cl1 calls
      in (cl2, requests, evs1 @ evs))"

fun is_send :: "client_call \<Rightarrow> bool" where
  "is_send (SendRequest color state now) = True"
| "is_send (CheckResponses samples now) = False"

definition sends :: "client_call list \<Rightarrow> nat" where
  "sends calls = length (filter is_send calls)"

text \<open>Counting the events that concern one request id.\<close>

fun is_match_for :: "u64 \<Rightarrow> Event \<Rightarrow> bool" where
  "is_match_for r (MatchResult response latency) = (resp_request_id response = r)"
| "is_match_for r (TimeoutEvent k) = False"

fun is_timeout_for :: "u64 \<Rightarrow> Event \<Rightarrow> bool" where
  "is_timeout_for r (MatchResult response latency) = False"
| "is_timeout_for r (TimeoutEvent k) = (k = r)"

definition match_count :: "u64 \<Rightarrow> Event list \<Rightarrow> nat" where
  "match_count r evs = length (filter (is_match_for r) evs)"

definition timeout_count :: "u64 \<Rightarrow> Event list \<Rightarrow> nat" where
  "timeout_count r evs = length (filter (is_timeout_for r) evs)"

text \<open>The ids in the table, and the ids that the valid samples of a batch answer.\<close>

definition pending_ids :: "pending_map \<Rightarrow> u64 set" where
  "pending_ids m = fst ` set m"

text \<open>The test of the second loop: the entry is older than five seconds at \<open>now\<close>.\<close>

definition timed_out :: "time_point \<Rightarrow> u64 \<times> time_point \<Rightarrow> bool" where
  "timed_out now e = (now - snd e > five_seconds)"

definition answered_ids :: "(ResponseSample \<times> time_point) list \<Rightarrow> u64 set" where
  "answered_ids samples =
     (resp_request_id \<circ> sample_data \<circ> fst) ` set (filter (sample_valid \<circ> fst) samples)"

text \<open>The parts of a session's result, and a tick of the driver loop as a call.\<close>

definition session_state :: "LedClient \<Rightarrow> client_call list \<Rightarrow> LedClient" where
  "session_state cl calls = fst (run_client cl calls)"

definition session_requests :: "LedClient \<Rightarrow> client_call list \<Rightarrow> LedRequest list" where
  "session_requests cl calls = fst (snd (run_client cl calls))"

definition session_events :: "LedClient \<Rightarrow> client_call list \<Rightarrow> Event list" where
  "session_events cl calls = snd (snd (run_client cl calls))"

definition tick :: "(ResponseSample \<times> time_point) list \<times> time_point \<Rightarrow> client_call" where
  "tick x = CheckResponses (fst x) (snd x)"


section \<open>Server: basic facts\<close>

lemma static_cast_int_range: "0 \<le> static_cast_int c \<and> static_cast_int c < 3"
  by (cases c) simp_all

lemma nat_static_cast_int_less: "nat (static_cast_int c) < 3"
  by (cases c) simp_all

lemma nat_static_cast_int_inj: "nat (static_cast_int c) = nat (static_cast_int d) \<longleftrightarrow> c = d"
  by (cases c; cases d) simp_all

lemma array_write_in_bounds:
  "length a = 3 \<Longrightarrow> array_write a (static_cast_int c) v = Inr (a[nat (static_cast_int c) := v])"
  using static_cast_int_range [of c] by (simp add: array_write_def)

lemma processRequest_in_bounds:
  "length (led_states srv) = 3 \<Longrightarrow>
   processRequest srv request =
     Inr (srv\<lparr>led_states := (led_states srv)[nat (static_cast_int (req_color request)) := req_state request]\<rparr>,
          \<lparr>resp_success = True,
           resp_message = ''LED control successful'',
           resp_color = req_color request,
           resp_state = req_state request,
           resp_request_id = req_request_id request\<rparr>)"
  by (simp add: processRequest_def array_write_in_bounds)

lemma processRequest_InrD:
  assumes "processRequest srv request = Inr (srv', response)"
  shows "led_states srv' = (led_states srv)[nat (static_cast_int (req_color request)) := req_state request]"
    and "nat (static_cast_int (req_color request)) < length (led_states srv)"
    and "response = \<lparr>resp_success = True, resp_message = ''LED control successful'',
           resp_color = req_color request, resp_state = req_state request,
           resp_request_id = req_request_id request\<rparr>"
    and "srv' = srv\<lparr>led_states := led_states srv'\<rparr>"
  using assms
  by (auto simp: processRequest_def array_write_def Let_def split: if_splits)

section \<open>Server: the claims about \<open>processRequest\<close>\<close>

text \<open>
  C6. For every request and every server state whose array has its three elements,
  \<open>processRequest\<close> succeeds, stores the requested state under the request's colour, and
  writes a response with \<open>success = true\<close>, the fixed message, and the colour, state and
  id of the request. The response is a function of the request alone, hence of the
  request and the LED state.
\<close>

theorem processRequest_sets_and_echoes:
  assumes "length (led_states srv) = 3"
  shows "processRequest srv request =
           Inr (srv\<lparr>led_states :=
                      (led_states srv)[nat (static_cast_int (req_color request)) := req_state request]\<rparr>,
                \<lparr>resp_success = True,
                 resp_message = ''LED control successful'',
                 resp_color = req_color request,
                 resp_state = req_state request,
                 resp_request_id = req_request_id request\<rparr>)
         \<and> led_state_of
             (srv\<lparr>led_states :=
                      (led_states srv)[nat (static_cast_int (req_color request)) := req_state request]\<rparr>)
             (req_color request) = req_state request"
proof -
  have "nat (static_cast_int (req_color request)) < length (led_states srv)"
    using nat_static_cast_int_less [of "req_color request"] assms by simp
  then show ?thesis
    using assms by (simp add: processRequest_in_bounds led_state_of_def)
qed

theorem processRequest_sets_and_echoes_witness:
  "length (led_states LedServer_init) = 3
   \<and> processRequest LedServer_init \<lparr>req_color = GREEN, req_state = True, req_request_id = 2\<rparr> =
       Inr (\<lparr>led_states = [False, True, False]\<rparr>,
            \<lparr>resp_success = True, resp_message = ''LED control successful'',
             resp_color = GREEN, resp_state = True, resp_request_id = 2\<rparr>)
   \<and> led_state_of \<lparr>led_states = [False, True, False]\<rparr> GREEN = True"
  using processRequest_sets_and_echoes
    [of LedServer_init "\<lparr>req_color = GREEN, req_state = True, req_request_id = 2\<rparr>"]
  by (simp add: LedServer_init_def)

text \<open>
  C7. For every request and every server state whose array has its three elements,
  processing the request succeeds, and processing the same request again in the state
  so reached leaves that state as it is (and writes the same response again).
\<close>

theorem processRequest_twice:
  assumes "length (led_states srv) = 3"
  shows "case processRequest srv request of
           Inl e \<Rightarrow> False
         | Inr (srv1, response1) \<Rightarrow> processRequest srv1 request = Inr (srv1, response1)"
proof -
  obtain srv1 response1 where p: "processRequest srv request = Inr (srv1, response1)"
    using processRequest_in_bounds [OF assms] by blast
  note d = processRequest_InrD [OF p]
  have "array_write (led_states srv1) (static_cast_int (req_color request)) (req_state request)
          = Inr (led_states srv1)"
    using d(1,2) static_cast_int_range [of "req_color request"]
    by (simp add: array_write_def)
  moreover have "srv1\<lparr>led_states := led_states srv1\<rparr> = srv1"
    by simp
  ultimately have "processRequest srv1 request = Inr (srv1, response1)"
    using d(3) by (simp add: processRequest_def)
  then show ?thesis
    using p by simp
qed

theorem processRequest_twice_witness:
  "length (led_states LedServer_init) = 3
   \<and> processRequest LedServer_init \<lparr>req_color = BLUE, req_state = True, req_request_id = 3\<rparr> =
     Inr (\<lparr>led_states = [False, False, True]\<rparr>,
          \<lparr>resp_success = True, resp_message = ''LED control successful'',
           resp_color = BLUE, resp_state = True, resp_request_id = 3\<rparr>)
   \<and> processRequest \<lparr>led_states = [False, False, True]\<rparr>
        \<lparr>req_color = BLUE, req_state = True, req_request_id = 3\<rparr> =
     Inr (\<lparr>led_states = [False, False, True]\<rparr>,
          \<lparr>resp_success = True, resp_message = ''LED control successful'',
           resp_color = BLUE, resp_state = True, resp_request_id = 3\<rparr>)"
proof -
  have h: "length (led_states LedServer_init) = 3"
    by (simp add: LedServer_init_def)
  have e: "processRequest LedServer_init \<lparr>req_color = BLUE, req_state = True, req_request_id = 3\<rparr> =
     Inr (\<lparr>led_states = [False, False, True]\<rparr>,
          \<lparr>resp_success = True, resp_message = ''LED control successful'',
           resp_color = BLUE, resp_state = True, resp_request_id = 3\<rparr>)"
    by (simp add: processRequest_def array_write_def LedServer_init_def)
  show ?thesis
    using processRequest_twice
            [OF h, of "\<lparr>req_color = BLUE, req_state = True, req_request_id = 3\<rparr>"] h e
    by simp
qed

text \<open>
  C9. The cast of each of the three colours is 0, 1 or 2, so in a server state whose
  array has its three elements the write of \<open>processRequest\<close> is inside the array:
  the call does not end in \<open>OutOfBounds\<close>, and the array keeps its three elements.
\<close>

theorem processRequest_index_in_bounds:
  assumes "length (led_states srv) = 3"
  shows "static_cast_int (req_color request) \<in> {0, 1, 2}
         \<and> nat (static_cast_int (req_color request)) < length (led_states srv)
         \<and> (case processRequest srv request of
              Inl e \<Rightarrow> False
            | Inr (srv', response) \<Rightarrow> length (led_states srv') = 3)"
proof -
  have "static_cast_int (req_color request) \<in> {0, 1, 2}"
    by (cases "req_color request") simp_all
  moreover have "nat (static_cast_int (req_color request)) < length (led_states srv)"
    using nat_static_cast_int_less [of "req_color request"] assms by simp
  moreover have "(case processRequest srv request of
              Inl e \<Rightarrow> False
            | Inr (srv', response) \<Rightarrow> length (led_states srv') = 3)"
    using assms by (simp add: processRequest_in_bounds)
  ultimately show ?thesis by simp
qed

theorem processRequest_index_in_bounds_witness:
  "length (led_states LedServer_init) = 3
   \<and> static_cast_int (req_color \<lparr>req_color = BLUE, req_state = False, req_request_id = 7\<rparr>) = 2
   \<and> processRequest LedServer_init \<lparr>req_color = BLUE, req_state = False, req_request_id = 7\<rparr>
       \<noteq> Inl OutOfBounds"
  using processRequest_index_in_bounds
    [of LedServer_init "\<lparr>req_color = BLUE, req_state = False, req_request_id = 7\<rparr>"]
  by (auto simp: LedServer_init_def split: sum.splits)

text \<open>
  C10. \<open>processRequest\<close> changes the LED state of the request's colour only: for every
  request and every server state whose array has its three elements, the call succeeds
  and every other colour has afterwards the state it had before.
\<close>

theorem processRequest_frame:
  assumes "length (led_states srv) = 3" and "c \<noteq> req_color request"
  shows "case processRequest srv request of
           Inl e \<Rightarrow> False
         | Inr (srv', response) \<Rightarrow> led_state_of srv' c = led_state_of srv c"
proof -
  obtain srv' response where p: "processRequest srv request = Inr (srv', response)"
    using processRequest_in_bounds [OF assms(1)] by blast
  have "nat (static_cast_int (req_color request)) \<noteq> nat (static_cast_int c)"
    using assms(2) by (simp add: nat_static_cast_int_inj)
  then have "led_state_of srv' c = led_state_of srv c"
    using processRequest_InrD(1) [OF p] by (simp add: led_state_of_def)
  then show ?thesis
    using p by simp
qed

theorem processRequest_frame_witness:
  "length (led_states \<lparr>led_states = [True, False, True]\<rparr>) = 3
   \<and> RED \<noteq> req_color \<lparr>req_color = GREEN, req_state = True, req_request_id = 5\<rparr>
   \<and> processRequest \<lparr>led_states = [True, False, True]\<rparr>
       \<lparr>req_color = GREEN, req_state = True, req_request_id = 5\<rparr> =
     Inr (\<lparr>led_states = [True, True, True]\<rparr>,
          \<lparr>resp_success = True, resp_message = ''LED control successful'',
           resp_color = GREEN, resp_state = True, resp_request_id = 5\<rparr>)
   \<and> led_state_of \<lparr>led_states = [True, True, True]\<rparr> RED
       = led_state_of \<lparr>led_states = [True, False, True]\<rparr> RED"
proof -
  have h: "length (led_states \<lparr>led_states = [True, False, True]\<rparr>) = 3"
    by simp
  have n: "RED \<noteq> req_color \<lparr>req_color = GREEN, req_state = True, req_request_id = 5\<rparr>"
    by simp
  have e: "processRequest \<lparr>led_states = [True, False, True]\<rparr>
       \<lparr>req_color = GREEN, req_state = True, req_request_id = 5\<rparr> =
     Inr (\<lparr>led_states = [True, True, True]\<rparr>,
          \<lparr>resp_success = True, resp_message = ''LED control successful'',
           resp_color = GREEN, resp_state = True, resp_request_id = 5\<rparr>)"
    by (simp add: processRequest_def array_write_def)
  show ?thesis
    using processRequest_frame [OF h n] h e by simp
qed

section \<open>Client: facts about the table operations\<close>

lemma map_find_le: "map_find k m \<le> length m"
  by (induction m) auto

lemma map_find_less_iff: "map_find k m < length m \<longleftrightarrow> k \<in> pending_ids m"
  by (induction m) (auto simp: pending_ids_def)

lemma map_find_end_iff: "map_find k m = length m \<longleftrightarrow> k \<notin> pending_ids m"
  using map_find_le [of k m] map_find_less_iff [of k m] by auto

lemma map_find_value:
  "map_find k m < length m \<Longrightarrow> map_of m k = Some (snd (m ! map_find k m))"
  by (induction m) auto

lemma map_wf_distinct: "map_wf m \<Longrightarrow> distinct (map fst m)"
  unfolding map_wf_def by (simp add: strict_sorted_iff)

lemma map_erase_find:
  "distinct (map fst m) \<Longrightarrow> map_erase (map_find k m) m = filter (\<lambda>e. fst e \<noteq> k) m"
proof (induction m)
  case Nil
  then show ?case by (simp add: map_erase_def)
next
  case (Cons e m)
  show ?case
  proof (cases "fst e = k")
    case True
    then have "k \<notin> fst ` set m" using Cons.prems by auto
    then have "filter (\<lambda>e. fst e \<noteq> k) m = m"
      by (auto simp: filter_id_conv)
    then show ?thesis using True by (simp add: map_erase_def)
  next
    case False
    then show ?thesis using Cons by (simp add: map_erase_def)
  qed
qed

lemma map_wf_filter: "map_wf m \<Longrightarrow> map_wf (filter P m)"
  unfolding map_wf_def
  by (induction m) auto

lemma pending_ids_map_assign: "pending_ids (map_assign k v m) = insert k (pending_ids m)"
  by (induction m) (auto simp: pending_ids_def)

lemma map_wf_map_assign: "map_wf m \<Longrightarrow> map_wf (map_assign k v m)"
  unfolding map_wf_def
  using pending_ids_map_assign[unfolded pending_ids_def]
  by (induction m) auto

lemma map_of_map_assign: "map_wf m \<Longrightarrow> map_of (map_assign k v m) = (map_of m)(k \<mapsto> v)"
  unfolding map_wf_def
  by (induction m) (auto simp: fun_upd_twist)

section \<open>Client: what the two loops of \<open>checkResponses\<close> compute\<close>

lemma answered_ids_Nil: "answered_ids [] = {}"
  by (simp add: answered_ids_def)

lemma answered_ids_Cons:
  "answered_ids ((s, t) # ss) =
     (if sample_valid s then insert (resp_request_id (sample_data s)) (answered_ids ss)
      else answered_ids ss)"
  by (simp add: answered_ids_def)

lemma answered_ids_append: "answered_ids (xs @ ys) = answered_ids xs \<union> answered_ids ys"
  by (auto simp: answered_ids_def)

lemma distinct_filter_keys: "distinct (map fst m) \<Longrightarrow> distinct (map fst (filter P m))"
  by (simp add: distinct_map_filter)

lemma filter_absent_key: "k \<notin> pending_ids m \<Longrightarrow> filter (\<lambda>e. fst e \<notin> insert k A) m = filter (\<lambda>e. fst e \<notin> A) m"
  by (rule filter_cong) (auto simp: pending_ids_def)

lemma drain_table:
  "distinct (map fst m) \<Longrightarrow>
   fst (checkResponses_drain m ss) = filter (\<lambda>e. fst e \<notin> answered_ids ss) m"
proof (induction ss arbitrary: m)
  case Nil
  then show ?case by (simp add: answered_ids_Nil)
next
  case (Cons x ss)
  obtain s t where x: "x = (s, t)" by (cases x)
  let ?k = "resp_request_id (sample_data s)"
  show ?case
  proof (cases "sample_valid s")
    case False
    then show ?thesis using Cons x by (simp add: answered_ids_Cons)
  next
    case True
    show ?thesis
    proof (cases "map_find ?k m = length m")
      case True
      then have n: "?k \<notin> pending_ids m" by (simp add: map_find_end_iff)
      have a: "answered_ids (x # ss) = insert ?k (answered_ids ss)"
        using x \<open>sample_valid s\<close> by (simp add: answered_ids_Cons)
      have "fst (checkResponses_drain m (x # ss)) = fst (checkResponses_drain m ss)"
        using x True \<open>sample_valid s\<close> by simp
      also have "\<dots> = filter (\<lambda>e. fst e \<notin> answered_ids ss) m"
        using Cons.IH [OF Cons.prems] .
      also have "\<dots> = filter (\<lambda>e. fst e \<notin> answered_ids (x # ss)) m"
        by (simp only: a filter_absent_key [OF n])
      finally show ?thesis .
    next
      case False
      have e: "map_erase (map_find ?k m) m = filter (\<lambda>e. fst e \<noteq> ?k) m"
        using Cons.prems by (rule map_erase_find)
      have d: "distinct (map fst (filter (\<lambda>e. fst e \<noteq> ?k) m))"
        using Cons.prems by (rule distinct_filter_keys)
      have "fst (checkResponses_drain m (x # ss))
              = fst (checkResponses_drain (filter (\<lambda>e. fst e \<noteq> ?k) m) ss)"
        using x False \<open>sample_valid s\<close> e by (simp add: Let_def split: prod.splits)
      also have "\<dots> = filter (\<lambda>e. fst e \<notin> answered_ids ss) (filter (\<lambda>e. fst e \<noteq> ?k) m)"
        using Cons.IH [OF d] .
      also have "\<dots> = filter (\<lambda>e. fst e \<notin> answered_ids (x # ss)) m"
        using x \<open>sample_valid s\<close> by (auto simp: answered_ids_Cons intro: filter_cong)
      finally show ?thesis .
    qed
  qed
qed

lemma sweep_eq:
  "checkResponses_sweep it now m =
     (take it m @ filter (\<lambda>e. \<not> timed_out now e) (drop it m),
      map (TimeoutEvent \<circ> fst) (filter (timed_out now) (drop it m)))"
proof (induction it now m rule: checkResponses_sweep.induct)
  case (1 it now m)
  show ?case
  proof (cases "it < length m")
    case False
    then show ?thesis by (simp add: checkResponses_sweep.simps [of it now m])
  next
    case True
    then have dr: "drop it m = m ! it # drop (Suc it) m"
      by (simp add: Cons_nth_drop_Suc)
    show ?thesis
    proof (cases "now - snd (m ! it) > five_seconds")
      case to: True
      have tk: "take it (map_erase it m) = take it m"
        using True by (simp add: map_erase_def)
      have dp: "drop it (map_erase it m) = drop (Suc it) m"
        using True by (simp add: map_erase_def)
      show ?thesis
        using "1.IH"(1) [OF True to] True to dr tk dp
        by (simp add: checkResponses_sweep.simps [of it now m] timed_out_def)
    next
      case nto: False
      have tk: "take (Suc it) m = take it m @ [m ! it]"
        using True by (simp add: take_Suc_conv_app_nth)
      show ?thesis
        using "1.IH"(2) [OF True nto] True nto dr tk
        by (simp add: checkResponses_sweep.simps [of it now m] timed_out_def)
    qed
  qed
qed

section \<open>Client: lookups and event counts of one call of \<open>checkResponses\<close>\<close>

lemma map_of_filter_distinct:
  "distinct (map fst m) \<Longrightarrow>
   map_of (filter P m) k =
     (case map_of m k of None \<Rightarrow> None | Some v \<Rightarrow> if P (k, v) then Some v else None)"
proof (induction m)
  case Nil
  then show ?case by simp
next
  case (Cons e m)
  obtain k' v' where e: "e = (k', v')" by (cases e)
  have n: "map_of m k' = None"
    using Cons.prems e by (simp add: map_of_eq_None_iff)
  show ?case
    using Cons e n by (auto split: option.splits)
qed

lemma count_filter_distinct:
  "distinct (map fst m) \<Longrightarrow>
   length (filter (\<lambda>e. fst e = k) (filter P m)) =
     (case map_of m k of None \<Rightarrow> 0 | Some v \<Rightarrow> if P (k, v) then 1 else 0)"
proof (induction m)
  case Nil
  then show ?case by simp
next
  case (Cons e m)
  obtain k' v' where e: "e = (k', v')" by (cases e)
  have n: "map_of m k' = None"
    using Cons.prems e by (simp add: map_of_eq_None_iff)
  show ?case
    using Cons e n by (auto split: option.splits)
qed

lemma pending_ids_dom: "pending_ids m = dom (map_of m)"
  by (simp add: pending_ids_def dom_map_of_conv_image_fst)

lemma match_count_Nil: "match_count r [] = 0"
  by (simp add: match_count_def)

lemma match_count_Cons:
  "match_count r (e # evs) = (if is_match_for r e then 1 else 0) + match_count r evs"
  by (simp add: match_count_def)

lemma match_count_append: "match_count r (xs @ ys) = match_count r xs + match_count r ys"
  by (simp add: match_count_def)

lemma timeout_count_Nil: "timeout_count r [] = 0"
  by (simp add: timeout_count_def)

lemma timeout_count_Cons:
  "timeout_count r (e # evs) = (if is_timeout_for r e then 1 else 0) + timeout_count r evs"
  by (simp add: timeout_count_def)

lemma timeout_count_append: "timeout_count r (xs @ ys) = timeout_count r xs + timeout_count r ys"
  by (simp add: timeout_count_def)

lemma drain_Cons:
  "checkResponses_drain m ((s, t) # ss) =
     (if sample_valid s \<and> map_find (resp_request_id (sample_data s)) m \<noteq> length m then
        (fst (checkResponses_drain (map_erase (map_find (resp_request_id (sample_data s)) m) m) ss),
         MatchResult (sample_data s)
           (duration_cast_ms (t - snd (m ! map_find (resp_request_id (sample_data s)) m)))
         # snd (checkResponses_drain (map_erase (map_find (resp_request_id (sample_data s)) m) m) ss))
      else checkResponses_drain m ss)"
  by (simp add: Let_def case_prod_beta)

lemma drain_timeout_count: "timeout_count r (snd (checkResponses_drain m ss)) = 0"
proof (induction ss arbitrary: m)
  case Nil
  then show ?case by (simp add: timeout_count_Nil)
next
  case (Cons x ss)
  obtain s t where x: "x = (s, t)" by (cases x)
  show ?case
    unfolding x drain_Cons using Cons.IH by (simp add: timeout_count_Cons)
qed

lemma drain_match_count:
  "distinct (map fst m) \<Longrightarrow>
   match_count r (snd (checkResponses_drain m ss)) =
     (if r \<in> pending_ids m \<and> r \<in> answered_ids ss then 1 else 0)"
proof (induction ss arbitrary: m)
  case Nil
  then show ?case by (simp add: answered_ids_Nil match_count_Nil)
next
  case (Cons x ss)
  obtain s t where x: "x = (s, t)" by (cases x)
  let ?k = "resp_request_id (sample_data s)"
  show ?case
  proof (cases "sample_valid s")
    case False
    then show ?thesis using Cons x by (simp add: answered_ids_Cons)
  next
    case True
    have a: "answered_ids (x # ss) = insert ?k (answered_ids ss)"
      using x True by (simp add: answered_ids_Cons)
    show ?thesis
    proof (cases "map_find ?k m = length m")
      case True
      then have n: "?k \<notin> pending_ids m" by (simp add: map_find_end_iff)
      have "snd (checkResponses_drain m (x # ss)) = snd (checkResponses_drain m ss)"
        using x True \<open>sample_valid s\<close> by simp
      moreover have "(r \<in> pending_ids m \<and> r \<in> answered_ids (x # ss))
                       = (r \<in> pending_ids m \<and> r \<in> answered_ids ss)"
        using n a by auto
      ultimately show ?thesis
        using Cons.IH [OF Cons.prems] by simp
    next
      case False
      then have y: "?k \<in> pending_ids m" by (simp add: map_find_end_iff)
      let ?m' = "filter (\<lambda>e. fst e \<noteq> ?k) m"
      have e: "map_erase (map_find ?k m) m = ?m'"
        using Cons.prems by (rule map_erase_find)
      have d: "distinct (map fst ?m')"
        using Cons.prems by (rule distinct_filter_keys)
      have i: "pending_ids ?m' = pending_ids m - {?k}"
        by (auto simp: pending_ids_def)
      have "match_count r (snd (checkResponses_drain m (x # ss)))
              = (if ?k = r then 1 else 0) + match_count r (snd (checkResponses_drain ?m' ss))"
        unfolding x drain_Cons using False \<open>sample_valid s\<close> e
        by (simp add: match_count_Cons)
      moreover have "(if ?k = r then 1 else 0)
                       + (if r \<in> pending_ids ?m' \<and> r \<in> answered_ids ss then 1 else 0)
                     = (if r \<in> pending_ids m \<and> r \<in> answered_ids (x # ss) then 1 else (0::nat))"
        using i y a by auto
      ultimately show ?thesis
        using Cons.IH [OF d] by simp
    qed
  qed
qed

lemma drain_append:
  "checkResponses_drain m (xs @ ys) =
     (fst (checkResponses_drain (fst (checkResponses_drain m xs)) ys),
      snd (checkResponses_drain m xs) @ snd (checkResponses_drain (fst (checkResponses_drain m xs)) ys))"
proof (induction xs arbitrary: m)
  case Nil
  then show ?case by simp
next
  case (Cons x xs)
  obtain s t where x: "x = (s, t)" by (cases x)
  show ?case
    unfolding x append_Cons drain_Cons using Cons.IH by simp
qed

lemma sweep_table: "fst (checkResponses_sweep 0 now m) = filter (\<lambda>e. \<not> timed_out now e) m"
  by (simp add: sweep_eq)

lemma sweep_events:
  "snd (checkResponses_sweep 0 now m) = map (TimeoutEvent \<circ> fst) (filter (timed_out now) m)"
  by (simp add: sweep_eq)

lemma match_count_timeouts: "match_count r (map (TimeoutEvent \<circ> fst) es) = 0"
  by (induction es) (simp_all add: match_count_Nil match_count_Cons)

lemma timeout_count_timeouts:
  "timeout_count r (map (TimeoutEvent \<circ> fst) es) = length (filter (\<lambda>e. fst e = r) es)"
  by (induction es) (simp_all add: timeout_count_Nil timeout_count_Cons)

lemma checkResponses_eq:
  "checkResponses cl ss now =
     (cl\<lparr>pending_requests := fst (checkResponses_sweep 0 now (fst (checkResponses_drain (pending_requests cl) ss)))\<rparr>,
      snd (checkResponses_drain (pending_requests cl) ss)
      @ snd (checkResponses_sweep 0 now (fst (checkResponses_drain (pending_requests cl) ss))))"
  by (simp add: checkResponses_def case_prod_beta)

lemma checkResponses_table:
  assumes "map_wf (pending_requests cl)"
  shows "pending_requests (fst (checkResponses cl ss now)) =
           filter (\<lambda>e. \<not> timed_out now e)
             (filter (\<lambda>e. fst e \<notin> answered_ids ss) (pending_requests cl))"
  using map_wf_distinct [OF assms]
  by (simp add: checkResponses_eq sweep_table drain_table)

lemma checkResponses_wf:
  "map_wf (pending_requests cl) \<Longrightarrow> map_wf (pending_requests (fst (checkResponses cl ss now)))"
  by (simp add: checkResponses_table map_wf_filter)

lemma checkResponses_counter:
  "request_counter (fst (checkResponses cl ss now)) = request_counter cl"
  by (simp add: checkResponses_eq)

lemma checkResponses_lookup:
  assumes "map_wf (pending_requests cl)"
  shows "map_of (pending_requests (fst (checkResponses cl ss now))) r =
           (case map_of (pending_requests cl) r of
              None \<Rightarrow> None
            | Some t \<Rightarrow> if r \<in> answered_ids ss \<or> now - t > five_seconds then None else Some t)"
proof -
  have d: "distinct (map fst (pending_requests cl))"
    using assms by (rule map_wf_distinct)
  have d': "distinct (map fst (filter (\<lambda>e. fst e \<notin> answered_ids ss) (pending_requests cl)))"
    using d by (rule distinct_filter_keys)
  show ?thesis
    unfolding checkResponses_table [OF assms]
    by (simp add: map_of_filter_distinct [OF d'] map_of_filter_distinct [OF d] timed_out_def
             split: option.splits)
qed

lemma checkResponses_match_count:
  assumes "map_wf (pending_requests cl)"
  shows "match_count r (snd (checkResponses cl ss now)) =
           (case map_of (pending_requests cl) r of
              None \<Rightarrow> 0
            | Some t \<Rightarrow> if r \<in> answered_ids ss then 1 else 0)"
proof -
  have d: "distinct (map fst (pending_requests cl))"
    using assms by (rule map_wf_distinct)
  have "match_count r (snd (checkResponses cl ss now))
          = (if r \<in> pending_ids (pending_requests cl) \<and> r \<in> answered_ids ss then 1 else 0)"
    by (simp add: checkResponses_eq match_count_append sweep_events match_count_timeouts
                  drain_match_count [OF d])
  then show ?thesis
    by (auto simp: pending_ids_dom split: option.splits)
qed

lemma checkResponses_timeout_count:
  assumes "map_wf (pending_requests cl)"
  shows "timeout_count r (snd (checkResponses cl ss now)) =
           (case map_of (pending_requests cl) r of
              None \<Rightarrow> 0
            | Some t \<Rightarrow> if r \<notin> answered_ids ss \<and> now - t > five_seconds then 1 else 0)"
proof -
  have d: "distinct (map fst (pending_requests cl))"
    using assms by (rule map_wf_distinct)
  let ?m1 = "filter (\<lambda>e. fst e \<notin> answered_ids ss) (pending_requests cl)"
  have d': "distinct (map fst ?m1)"
    using d by (rule distinct_filter_keys)
  have "timeout_count r (snd (checkResponses cl ss now))
          = length (filter (\<lambda>e. fst e = r) (filter (timed_out now) ?m1))"
    by (simp add: checkResponses_eq timeout_count_append sweep_events timeout_count_timeouts
                  drain_timeout_count drain_table [OF d])
  also have "\<dots> = (case map_of ?m1 r of None \<Rightarrow> 0 | Some t \<Rightarrow> if timed_out now (r, t) then 1 else 0)"
    by (rule count_filter_distinct [OF d'])
  also have "\<dots> = (case map_of (pending_requests cl) r of
              None \<Rightarrow> 0
            | Some t \<Rightarrow> if r \<notin> answered_ids ss \<and> now - t > five_seconds then 1 else 0)"
    by (simp add: map_of_filter_distinct [OF d] timed_out_def split: option.splits)
  finally show ?thesis .
qed

lemma duration_cast_ms_nonneg: "0 \<le> d \<Longrightarrow> 0 \<le> duration_cast_ms d"
  by (simp add: duration_cast_ms_def)

lemma duration_cast_ms_bounds:
  "0 \<le> d \<Longrightarrow> 1000000 * duration_cast_ms d \<le> d \<and> d < 1000000 * duration_cast_ms d + 1000000"
  unfolding duration_cast_ms_def by simp presburger

lemma drain_first_answer:
  assumes "distinct (map fst m)" and "map_of m r = Some issue"
    and "sample_valid s" and "resp_request_id (sample_data s) = r"
  shows "checkResponses_drain m ((s, now) # post) =
           (fst (checkResponses_drain (filter (\<lambda>e. fst e \<noteq> r) m) post),
            MatchResult (sample_data s) (duration_cast_ms (now - issue))
            # snd (checkResponses_drain (filter (\<lambda>e. fst e \<noteq> r) m) post))"
proof -
  have "r \<in> pending_ids m"
    using assms(2) by (auto simp: pending_ids_dom)
  then have f: "map_find r m < length m"
    by (simp add: map_find_less_iff)
  have v: "snd (m ! map_find r m) = issue"
    using map_find_value [OF f] assms(2) by simp
  show ?thesis
    unfolding drain_Cons using f v assms(3,4) map_erase_find [OF assms(1), of r] by simp
qed

section \<open>Client: the claims about one call of \<open>checkResponses\<close>\<close>

text \<open>
  C1. Let the table hold request \<open>r\<close> with issue time \<open>issue\<close>, and let a batch of samples
  contain a valid response for \<open>r\<close>, handled at clock reading \<open>now\<close> (not before the
  issue time), with no valid response for \<open>r\<close> before it in the batch. Then the first
  loop of \<open>checkResponses\<close> emits exactly one \<open>MatchResult\<close> for \<open>r\<close>, whatever else the
  batch holds; its latency is \<open>now - issue\<close> in whole milliseconds and is not negative;
  \<open>r\<close> is no longer in the table; and delivering the same response once more emits
  nothing and leaves the table as it is. This holds before the deadline and, while the
  entry is still in the table, after it as well.
\<close>

theorem drain_matches_once:
  assumes "map_wf m" and "map_of m r = Some issue"
    and "sample_valid s" and "resp_request_id (sample_data s) = r"
    and "r \<notin> answered_ids pre" and "issue \<le> now"
  shows "match_count r (snd (checkResponses_drain m (pre @ (s, now) # post))) = 1
       \<and> MatchResult (sample_data s) (duration_cast_ms (now - issue))
           \<in> set (snd (checkResponses_drain m (pre @ (s, now) # post)))
       \<and> 0 \<le> duration_cast_ms (now - issue)
       \<and> 1000000 * duration_cast_ms (now - issue) \<le> now - issue
       \<and> now - issue < 1000000 * duration_cast_ms (now - issue) + 1000000
       \<and> r \<notin> pending_ids (fst (checkResponses_drain m (pre @ (s, now) # post)))
       \<and> checkResponses_drain (fst (checkResponses_drain m (pre @ (s, now) # post))) [(s, later)]
           = (fst (checkResponses_drain m (pre @ (s, now) # post)), [])"
proof -
  let ?batch = "pre @ (s, now) # post"
  let ?m1 = "filter (\<lambda>e. fst e \<notin> answered_ids pre) m"
  let ?m' = "fst (checkResponses_drain m ?batch)"
  have d: "distinct (map fst m)"
    using assms(1) by (rule map_wf_distinct)
  have d1: "distinct (map fst ?m1)"
    using d by (rule distinct_filter_keys)
  have in_m: "r \<in> pending_ids m"
    using assms(2) by (auto simp: pending_ids_dom)
  have in_batch: "r \<in> answered_ids ?batch"
    using assms(3,4) by (simp add: answered_ids_append answered_ids_Cons)
  have c1: "match_count r (snd (checkResponses_drain m ?batch)) = 1"
    using in_m in_batch by (simp add: drain_match_count [OF d])
  have l1: "map_of ?m1 r = Some issue"
    using assms(2,5) by (simp add: map_of_filter_distinct [OF d])
  have "snd (checkResponses_drain m ?batch)
          = snd (checkResponses_drain m pre) @ snd (checkResponses_drain ?m1 ((s, now) # post))"
    by (simp add: drain_append [of m pre] drain_table [OF d] del: checkResponses_drain.simps)
  then have c2: "MatchResult (sample_data s) (duration_cast_ms (now - issue))
           \<in> set (snd (checkResponses_drain m ?batch))"
    by (simp add: drain_first_answer [OF d1 l1 assms(3,4)] del: checkResponses_drain.simps)
  have c3: "0 \<le> duration_cast_ms (now - issue)"
    using assms(6) by (simp add: duration_cast_ms_nonneg)
  have c4: "1000000 * duration_cast_ms (now - issue) \<le> now - issue
       \<and> now - issue < 1000000 * duration_cast_ms (now - issue) + 1000000"
    using assms(6) by (simp add: duration_cast_ms_bounds)
  have c5: "r \<notin> pending_ids ?m'"
    using in_batch by (auto simp: drain_table [OF d] pending_ids_def)
  then have "map_find (resp_request_id (sample_data s)) ?m' = length ?m'"
    using assms(4) by (simp add: map_find_end_iff)
  then have c6: "checkResponses_drain ?m' [(s, later)] = (?m', [])"
    unfolding drain_Cons by simp
  show ?thesis
    using c1 c2 c3 c4 c5 c6 by simp
qed

theorem drain_matches_once_witness:
  "map_wf [(1, 0), (2, 500)]
   \<and> map_of [(1 :: u64, 0 :: int), (2, 500)] 1 = Some 0
   \<and> checkResponses_drain [(1, 0), (2, 500)]
        [(\<lparr>sample_valid = False,
            sample_data = \<lparr>resp_success = False, resp_message = [], resp_color = RED,
                           resp_state = False, resp_request_id = 1\<rparr>\<rparr>, 1000),
         (\<lparr>sample_valid = True,
            sample_data = \<lparr>resp_success = True, resp_message = ''LED control successful'',
                           resp_color = RED, resp_state = True, resp_request_id = 1\<rparr>\<rparr>, 2500000),
         (\<lparr>sample_valid = True,
            sample_data = \<lparr>resp_success = True, resp_message = ''LED control successful'',
                           resp_color = RED, resp_state = True, resp_request_id = 1\<rparr>\<rparr>, 2600000)]
       = ([(2, 500)],
          [MatchResult \<lparr>resp_success = True, resp_message = ''LED control successful'',
                        resp_color = RED, resp_state = True, resp_request_id = 1\<rparr> 2])
   \<and> match_count 1
        [MatchResult \<lparr>resp_success = True, resp_message = ''LED control successful'',
                        resp_color = RED, resp_state = True, resp_request_id = 1\<rparr> 2] = 1
   \<and> checkResponses_drain [(2, 500)]
        [(\<lparr>sample_valid = True,
            sample_data = \<lparr>resp_success = True, resp_message = ''LED control successful'',
                           resp_color = RED, resp_state = True, resp_request_id = 1\<rparr>\<rparr>, 2700000)]
       = ([(2, 500)], [])"
proof -
  let ?ok = "\<lparr>sample_valid = True,
            sample_data = \<lparr>resp_success = True, resp_message = ''LED control successful'',
                           resp_color = RED, resp_state = True, resp_request_id = 1\<rparr>\<rparr>"
  let ?bad = "\<lparr>sample_valid = False,
            sample_data = \<lparr>resp_success = False, resp_message = [], resp_color = RED,
                           resp_state = False, resp_request_id = 1\<rparr>\<rparr>"
  have h1: "map_wf [(1, 0), (2, 500)]"
    by (simp add: map_wf_def)
  have h2: "map_of [(1 :: u64, 0 :: int), (2, 500)] 1 = Some 0"
    by simp
  have h3: "sample_valid ?ok"
    by simp
  have h4: "resp_request_id (sample_data ?ok) = 1"
    by simp
  have h5: "1 \<notin> answered_ids [(?bad, 1000)]"
    by (simp add: answered_ids_def)
  have h6: "(0 :: int) \<le> 2500000"
    by simp
  have e: "checkResponses_drain [(1, 0), (2, 500)] [(?bad, 1000), (?ok, 2500000), (?ok, 2600000)]
       = ([(2, 500)],
          [MatchResult \<lparr>resp_success = True, resp_message = ''LED control successful'',
                        resp_color = RED, resp_state = True, resp_request_id = 1\<rparr> 2])"
    by (simp add: map_erase_def duration_cast_ms_def)
  show ?thesis
    using drain_matches_once [OF h1 h2 h3 h4 h5 h6, of "[(?ok, 2600000)]" 2700000] h1 e
    by (simp add: match_count_def)
qed

text \<open>
  C8. A sample that the transport reports invalid, or a valid response whose request id is
  not in the table, is dropped by the first loop of \<open>checkResponses\<close>: alone it emits no
  event and leaves the table unchanged, and in front of further samples the loop (and the
  whole call) goes on with them exactly as if the sample had not been there. For an invalid
  sample this does not depend on the sample's data.
\<close>

theorem drain_discards:
  assumes "\<not> sample_valid s \<or> resp_request_id (sample_data s) \<notin> pending_ids (pending_requests cl)"
  shows "checkResponses_drain (pending_requests cl) [(s, t)] = (pending_requests cl, [])
       \<and> checkResponses_drain (pending_requests cl) ((s, t) # rest)
           = checkResponses_drain (pending_requests cl) rest
       \<and> checkResponses cl ((s, t) # rest) now = checkResponses cl rest now
       \<and> (\<not> sample_valid s \<longrightarrow>
            checkResponses_drain (pending_requests cl) ((s\<lparr>sample_data := d\<rparr>, t) # rest)
              = checkResponses_drain (pending_requests cl) rest)"
proof -
  let ?m = "pending_requests cl"
  have "\<not> sample_valid s \<or> map_find (resp_request_id (sample_data s)) ?m = length ?m"
    using assms by (simp add: map_find_end_iff)
  then have a: "checkResponses_drain ?m ((s, t) # rest) = checkResponses_drain ?m rest" for rest
    unfolding drain_Cons by auto
  have b: "\<not> sample_valid s \<longrightarrow>
            checkResponses_drain ?m ((s\<lparr>sample_data := d\<rparr>, t) # rest) = checkResponses_drain ?m rest"
    unfolding drain_Cons by simp
  have c: "checkResponses cl ((s, t) # rest) now = checkResponses cl rest now"
    unfolding checkResponses_eq a [of rest] by simp
  have e: "checkResponses_drain ?m [(s, t)] = (?m, [])"
    unfolding a [of "[]"] by simp
  show ?thesis
    using a [of rest] b c e by blast
qed

theorem drain_discards_witness:
  "resp_request_id (sample_data
       \<lparr>sample_valid = True,
        sample_data = \<lparr>resp_success = True, resp_message = ''LED control successful'',
                       resp_color = GREEN, resp_state = True, resp_request_id = 9\<rparr>\<rparr>)
     \<notin> pending_ids (pending_requests \<lparr>request_counter = 3, pending_requests = [(2, 40), (3, 70)]\<rparr>)
   \<and> checkResponses_drain [(2, 40), (3, 70)]
        [(\<lparr>sample_valid = True,
           sample_data = \<lparr>resp_success = True, resp_message = ''LED control successful'',
                          resp_color = GREEN, resp_state = True, resp_request_id = 9\<rparr>\<rparr>, 100)]
       = ([(2, 40), (3, 70)], [])
   \<and> \<not> sample_valid
        \<lparr>sample_valid = False,
         sample_data = \<lparr>resp_success = True, resp_message = ''LED control successful'',
                        resp_color = GREEN, resp_state = True, resp_request_id = 2\<rparr>\<rparr>
   \<and> checkResponses_drain [(2, 40), (3, 70)]
        [(\<lparr>sample_valid = False,
           sample_data = \<lparr>resp_success = True, resp_message = ''LED control successful'',
                          resp_color = GREEN, resp_state = True, resp_request_id = 2\<rparr>\<rparr>, 100)]
       = ([(2, 40), (3, 70)], [])"
proof -
  let ?cl = "\<lparr>request_counter = 3, pending_requests = [(2, 40), (3, 70)]\<rparr>"
  let ?foreign = "\<lparr>sample_valid = True,
        sample_data = \<lparr>resp_success = True, resp_message = ''LED control successful'',
                       resp_color = GREEN, resp_state = True, resp_request_id = 9\<rparr>\<rparr>"
  let ?invalid = "\<lparr>sample_valid = False,
         sample_data = \<lparr>resp_success = True, resp_message = ''LED control successful'',
                        resp_color = GREEN, resp_state = True, resp_request_id = 2\<rparr>\<rparr>"
  have h1: "\<not> sample_valid ?foreign
            \<or> resp_request_id (sample_data ?foreign) \<notin> pending_ids (pending_requests ?cl)"
    by (simp add: pending_ids_def)
  have h2: "\<not> sample_valid ?invalid
            \<or> resp_request_id (sample_data ?invalid) \<notin> pending_ids (pending_requests ?cl)"
    by simp
  show ?thesis
    using drain_discards [OF h1, of 100 "[]" 0 "sample_data ?foreign"]
          drain_discards [OF h2, of 100 "[]" 0 "sample_data ?invalid"]
    by (simp add: pending_ids_def)
qed

text \<open>
  C5. The events of one call of \<open>checkResponses\<close> are those of the first loop over all
  samples taken, followed by those of the sweep, which runs on the table the first loop
  left. So a pending request that a valid sample of the tick answers is matched exactly
  once and is not timed out in that tick, whatever the clock reading \<open>now\<close> of the sweep
  is, also when its deadline has expired by then.
\<close>

theorem checkResponses_match_before_timeout:
  assumes "map_wf (pending_requests cl)"
    and "map_of (pending_requests cl) r = Some issue"
    and "r \<in> answered_ids samples"
  shows "snd (checkResponses cl samples now)
           = snd (checkResponses_drain (pending_requests cl) samples)
             @ snd (checkResponses_sweep 0 now (fst (checkResponses_drain (pending_requests cl) samples)))
       \<and> match_count r (snd (checkResponses_drain (pending_requests cl) samples)) = 1
       \<and> timeout_count r
            (snd (checkResponses_sweep 0 now (fst (checkResponses_drain (pending_requests cl) samples)))) = 0
       \<and> match_count r (snd (checkResponses cl samples now)) = 1
       \<and> timeout_count r (snd (checkResponses cl samples now)) = 0
       \<and> r \<notin> pending_ids (pending_requests (fst (checkResponses cl samples now)))"
proof -
  let ?m = "pending_requests cl"
  have d: "distinct (map fst ?m)"
    using assms(1) by (rule map_wf_distinct)
  have in_m: "r \<in> pending_ids ?m"
    using assms(2) by (auto simp: pending_ids_dom)
  have c1: "match_count r (snd (checkResponses_drain ?m samples)) = 1"
    using in_m assms(3) by (simp add: drain_match_count [OF d])
  have "timeout_count r (snd (checkResponses cl samples now)) = 0"
    using assms(2,3) by (simp add: checkResponses_timeout_count [OF assms(1)])
  moreover have "match_count r (snd (checkResponses cl samples now)) = 1"
    using assms(2,3) by (simp add: checkResponses_match_count [OF assms(1)])
  moreover have "map_of (pending_requests (fst (checkResponses cl samples now))) r = None"
    using assms(2,3) by (simp add: checkResponses_lookup [OF assms(1)])
  then have "r \<notin> pending_ids (pending_requests (fst (checkResponses cl samples now)))"
    by (auto simp: pending_ids_dom)
  moreover have "timeout_count r
            (snd (checkResponses_sweep 0 now (fst (checkResponses_drain ?m samples)))) = 0"
    using calculation(1) by (simp add: checkResponses_eq timeout_count_append)
  ultimately show ?thesis
    using c1 by (simp add: checkResponses_eq)
qed

theorem checkResponses_match_before_timeout_witness:
  "map_wf (pending_requests \<lparr>request_counter = 2, pending_requests = [(1, 0), (2, 4000000000)]\<rparr>)
   \<and> map_of (pending_requests \<lparr>request_counter = 2, pending_requests = [(1, 0), (2, 4000000000)]\<rparr>) 1
       = Some 0
   \<and> 6000000000 - 0 > five_seconds
   \<and> checkResponses \<lparr>request_counter = 2, pending_requests = [(1, 0), (2, 4000000000)]\<rparr>
        [(\<lparr>sample_valid = True,
           sample_data = \<lparr>resp_success = True, resp_message = ''LED control successful'',
                          resp_color = RED, resp_state = True, resp_request_id = 1\<rparr>\<rparr>, 5999000000)]
        6000000000
       = (\<lparr>request_counter = 2, pending_requests = [(2, 4000000000)]\<rparr>,
          [MatchResult \<lparr>resp_success = True, resp_message = ''LED control successful'',
                        resp_color = RED, resp_state = True, resp_request_id = 1\<rparr> 5999])
   \<and> timeout_count 1
        (snd (checkResponses \<lparr>request_counter = 2, pending_requests = [(1, 0), (2, 4000000000)]\<rparr>
        [(\<lparr>sample_valid = True,
           sample_data = \<lparr>resp_success = True, resp_message = ''LED control successful'',
                          resp_color = RED, resp_state = True, resp_request_id = 1\<rparr>\<rparr>, 5999000000)]
        6000000000)) = 0"
proof -
  let ?cl = "\<lparr>request_counter = 2, pending_requests = [(1, 0), (2, 4000000000)]\<rparr>"
  let ?ok = "\<lparr>sample_valid = True,
           sample_data = \<lparr>resp_success = True, resp_message = ''LED control successful'',
                          resp_color = RED, resp_state = True, resp_request_id = 1\<rparr>\<rparr>"
  have h1: "map_wf (pending_requests ?cl)"
    by (simp add: map_wf_def)
  have h2: "map_of (pending_requests ?cl) 1 = Some 0"
    by simp
  have h3: "1 \<in> answered_ids [(?ok, 5999000000)]"
    by (simp add: answered_ids_def)
  have e: "checkResponses ?cl [(?ok, 5999000000)] 6000000000
       = (\<lparr>request_counter = 2, pending_requests = [(2, 4000000000)]\<rparr>,
          [MatchResult \<lparr>resp_success = True, resp_message = ''LED control successful'',
                        resp_color = RED, resp_state = True, resp_request_id = 1\<rparr> 5999])"
    by (simp add: checkResponses_def map_erase_def duration_cast_ms_def five_seconds_def
                  checkResponses_sweep.simps [of _ _ "[(2, 4000000000)]"])
  show ?thesis
    using checkResponses_match_before_timeout [OF h1 h2 h3, of 6000000000] h1 h2 e
    by (simp add: five_seconds_def)
qed

section \<open>Client: sessions\<close>

lemma sendRequest_counter:
  "request_counter (fst (sendRequest cl color state now)) = request_counter cl + 1"
  by (simp add: sendRequest_def Let_def)

lemma sendRequest_table:
  "pending_requests (fst (sendRequest cl color state now)) =
     map_assign (request_counter cl + 1) now (pending_requests cl)"
  by (simp add: sendRequest_def Let_def)

lemma sendRequest_request:
  "snd (sendRequest cl color state now) =
     \<lparr>req_color = color, req_state = state, req_request_id = request_counter cl + 1\<rparr>"
  by (simp add: sendRequest_def Let_def)

lemma session_Nil:
  "session_state cl [] = cl" "session_requests cl [] = []" "session_events cl [] = []"
  by (simp_all add: session_state_def session_requests_def session_events_def)

lemma session_Send:
  "session_state cl (SendRequest color state now # calls)
     = session_state (fst (sendRequest cl color state now)) calls"
  "session_requests cl (SendRequest color state now # calls)
     = snd (sendRequest cl color state now)
       # session_requests (fst (sendRequest cl color state now)) calls"
  "session_events cl (SendRequest color state now # calls)
     = session_events (fst (sendRequest cl color state now)) calls"
  by (simp_all add: session_state_def session_requests_def session_events_def case_prod_beta)

lemma session_Check:
  "session_state cl (CheckResponses samples now # calls)
     = session_state (fst (checkResponses cl samples now)) calls"
  "session_requests cl (CheckResponses samples now # calls)
     = session_requests (fst (checkResponses cl samples now)) calls"
  "session_events cl (CheckResponses samples now # calls)
     = snd (checkResponses cl samples now)
       @ session_events (fst (checkResponses cl samples now)) calls"
  by (simp_all add: session_state_def session_requests_def session_events_def case_prod_beta)

lemma session_append:
  "session_state cl (xs @ ys) = session_state (session_state cl xs) ys"
  "session_requests cl (xs @ ys)
     = session_requests cl xs @ session_requests (session_state cl xs) ys"
  "session_events cl (xs @ ys)
     = session_events cl xs @ session_events (session_state cl xs) ys"
proof (induction xs arbitrary: cl)
  case Nil
  {
    case 1 show ?case by (simp add: session_Nil)
  next
    case 2 show ?case by (simp add: session_Nil)
  next
    case 3 show ?case by (simp add: session_Nil)
  }
next
  case (Cons x xs)
  {
    case 1 show ?case using Cons.IH(1) by (cases x) (simp_all add: session_Send session_Check)
  next
    case 2 show ?case using Cons.IH(1,2) by (cases x) (simp_all add: session_Send session_Check)
  next
    case 3 show ?case using Cons.IH(1,3) by (cases x) (simp_all add: session_Send session_Check)
  }
qed

lemma sends_Nil: "sends [] = 0"
  by (simp add: sends_def)

lemma sends_Send: "sends (SendRequest color state now # calls) = Suc (sends calls)"
  by (simp add: sends_def)

lemma sends_Check: "sends (CheckResponses samples now # calls) = sends calls"
  by (simp add: sends_def)

lemma sends_replicate: "sends (replicate n (SendRequest color state now)) = n"
  by (induction n) (simp_all add: sends_Nil sends_Send)


lemma session_ids:
  "map req_request_id (session_requests cl calls) =
     map (\<lambda>i. request_counter cl + word_of_nat (Suc i)) [0..<sends calls]"
proof (induction calls arbitrary: cl)
  case Nil
  then show ?case by (simp add: session_Nil sends_Nil)
next
  case (Cons x calls)
  show ?case
  proof (cases x)
    case (SendRequest color state now)
    have "[0..<Suc (sends calls)] = 0 # map Suc [0..<sends calls]"
      by (simp add: upt_conv_Cons map_Suc_upt del: upt_Suc)
    then show ?thesis
      using Cons.IH [of "fst (sendRequest cl color state now)"] SendRequest
      by (simp add: session_Send sends_Send sendRequest_counter sendRequest_request
                    comp_def add.assoc del: upt_Suc)
  next
    case (CheckResponses samples now)
    then show ?thesis
      using Cons.IH [of "fst (checkResponses cl samples now)"]
      by (simp add: session_Check sends_Check checkResponses_counter)
  qed
qed

lemma word_of_nat_less_u64:
  "a < b \<Longrightarrow> b < 2 ^ 64 \<Longrightarrow> (word_of_nat a :: u64) < word_of_nat b"
  by (simp add: word_less_nat_alt unat_of_nat)

lemma word_of_nat_pos_u64:
  "0 < b \<Longrightarrow> b < 2 ^ 64 \<Longrightarrow> (0 :: u64) < word_of_nat b"
  using word_of_nat_less_u64 [of 0 b] by simp

lemma init_ids:
  "map req_request_id (session_requests LedClient_init calls) =
     map (\<lambda>i. word_of_nat (Suc i)) [0..<sends calls]"
  using session_ids [of LedClient_init calls] by (simp add: LedClient_init_def)

lemma init_ids_sorted:
  assumes "sends calls < 2 ^ 64"
  shows "sorted_wrt (<) (map req_request_id (session_requests LedClient_init calls))"
proof -
  have "(word_of_nat (Suc x) :: u64) < word_of_nat (Suc y)"
    if "x < y" and "y \<in> set [0..<sends calls]" for x y
  proof (rule word_of_nat_less_u64)
    show "Suc x < Suc y" using that(1) by simp
    show "Suc y < 2 ^ 64" using that(2) assms by simp
  qed
  note lt = this
  have "sorted_wrt (\<lambda>x y. (word_of_nat (Suc x) :: u64) < word_of_nat (Suc y)) [0..<sends calls]"
  proof (rule sorted_wrt_mono_rel [OF _ sorted_wrt_upt])
    fix x y
    assume "x \<in> set [0..<sends calls]" "y \<in> set [0..<sends calls]" "x < y"
    then show "(word_of_nat (Suc x) :: u64) < word_of_nat (Suc y)"
      using lt by blast
  qed
  then show ?thesis
    unfolding init_ids sorted_wrt_map .
qed

lemma init_ids_nth:
  "i < sends calls \<Longrightarrow>
   map req_request_id (session_requests LedClient_init calls) ! i = word_of_nat (Suc i)"
  unfolding init_ids by (simp del: of_nat_Suc)

lemma init_ids_positive:
  assumes "sends calls < 2 ^ 64"
  shows "list_all (\<lambda>k. 0 < k) (map req_request_id (session_requests LedClient_init calls))"
proof -
  have "(0 :: u64) < word_of_nat (Suc i)" if "i < sends calls" for i
    by (rule word_of_nat_pos_u64) (use that assms in simp_all)
  then show ?thesis
    unfolding init_ids list_all_iff by (auto simp del: of_nat_Suc)
qed

lemma session_wf:
  "map_wf (pending_requests cl) \<Longrightarrow> map_wf (pending_requests (session_state cl calls))"
proof (induction calls arbitrary: cl)
  case Nil
  then show ?case by (simp add: session_Nil)
next
  case (Cons x calls)
  show ?case
  proof (cases x)
    case (SendRequest color state now)
    have "map_wf (pending_requests (fst (sendRequest cl color state now)))"
      using Cons.prems by (simp add: sendRequest_table map_wf_map_assign)
    then show ?thesis
      using Cons.IH SendRequest by (simp add: session_Send)
  next
    case (CheckResponses samples now)
    have "map_wf (pending_requests (fst (checkResponses cl samples now)))"
      using Cons.prems by (rule checkResponses_wf)
    then show ?thesis
      using Cons.IH CheckResponses by (simp add: session_Check)
  qed
qed








lemma session_init_wf: "map_wf (pending_requests (session_state LedClient_init calls))"
  by (rule session_wf) (simp add: LedClient_init_def map_wf_def)

lemma quiet_ticks:
  assumes "map_wf (pending_requests cl)" and "map_of (pending_requests cl) r = Some issue"
    and "list_all (\<lambda>x. r \<notin> answered_ids (fst x) \<and> snd x - issue \<le> five_seconds) pre"
  shows "map_wf (pending_requests (session_state cl (map tick pre)))
       \<and> map_of (pending_requests (session_state cl (map tick pre))) r = Some issue
       \<and> timeout_count r (session_events cl (map tick pre)) = 0
       \<and> match_count r (session_events cl (map tick pre)) = 0"
  using assms
proof (induction pre arbitrary: cl)
  case Nil
  then show ?case by (simp add: session_Nil timeout_count_Nil match_count_Nil)
next
  case (Cons x pre)
  let ?cl1 = "fst (checkResponses cl (fst x) (snd x))"
  have q: "r \<notin> answered_ids (fst x)" "snd x - issue \<le> five_seconds"
    using Cons.prems(3) by simp_all
  have w1: "map_wf (pending_requests ?cl1)"
    using Cons.prems(1) by (rule checkResponses_wf)
  have l1: "map_of (pending_requests ?cl1) r = Some issue"
    using Cons.prems(2) q by (simp add: checkResponses_lookup [OF Cons.prems(1)])
  have t1: "timeout_count r (snd (checkResponses cl (fst x) (snd x))) = 0"
    using Cons.prems(2) q by (simp add: checkResponses_timeout_count [OF Cons.prems(1)])
  have m1: "match_count r (snd (checkResponses cl (fst x) (snd x))) = 0"
    using Cons.prems(2) q by (simp add: checkResponses_match_count [OF Cons.prems(1)])
  have rest: "list_all (\<lambda>x. r \<notin> answered_ids (fst x) \<and> snd x - issue \<le> five_seconds) pre"
    using Cons.prems(3) by simp
  show ?case
    using Cons.IH [OF w1 l1 rest] t1 m1
    by (simp add: tick_def session_Check timeout_count_append match_count_append)
qed

lemma gone_ticks:
  assumes "map_wf (pending_requests cl)" and "map_of (pending_requests cl) r = None"
  shows "timeout_count r (session_events cl (map tick post)) = 0
       \<and> match_count r (session_events cl (map tick post)) = 0"
  using assms
proof (induction post arbitrary: cl)
  case Nil
  then show ?case by (simp add: session_Nil timeout_count_Nil match_count_Nil)
next
  case (Cons x post)
  let ?cl1 = "fst (checkResponses cl (fst x) (snd x))"
  have w1: "map_wf (pending_requests ?cl1)"
    using Cons.prems(1) by (rule checkResponses_wf)
  have l1: "map_of (pending_requests ?cl1) r = None"
    using Cons.prems(2) by (simp add: checkResponses_lookup [OF Cons.prems(1)])
  have t1: "timeout_count r (snd (checkResponses cl (fst x) (snd x))) = 0"
    using Cons.prems(2) by (simp add: checkResponses_timeout_count [OF Cons.prems(1)])
  have m1: "match_count r (snd (checkResponses cl (fst x) (snd x))) = 0"
    using Cons.prems(2) by (simp add: checkResponses_match_count [OF Cons.prems(1)])
  show ?case
    using Cons.IH [OF w1 l1] t1 m1
    by (simp add: tick_def session_Check timeout_count_append match_count_append)
qed












section \<open>Client: the claims about sessions\<close>

text \<open>
  C4, as the code has it. The counter starts at zero and \<open>sendRequest\<close> pre-increments
  it, so in a session of fewer than \<open>2 ^ 64\<close> calls of \<open>sendRequest\<close> (with any calls of
  \<open>checkResponses\<close> in between) the \<open>k\<close>-th request carries the id \<open>k\<close>: the ids are
  strictly increasing, never repeat and are greater than zero. Each call takes the
  counter's value plus one as the id and stores the clock reading \<open>now\<close> under that id in
  the table; the call has no failing branch.
\<close>

theorem sendRequest_ids_increasing:
  assumes "sends calls < 2 ^ 64"
  shows "map req_request_id (session_requests LedClient_init calls)
           = map (\<lambda>i. word_of_nat (Suc i)) [0..<sends calls]
       \<and> sorted_wrt (<) (map req_request_id (session_requests LedClient_init calls))
       \<and> distinct (map req_request_id (session_requests LedClient_init calls))
       \<and> list_all (\<lambda>k. 0 < k) (map req_request_id (session_requests LedClient_init calls))
       \<and> req_request_id (snd (sendRequest (session_state LedClient_init calls) color state now))
           = request_counter (session_state LedClient_init calls) + 1
       \<and> map_of (pending_requests
                   (fst (sendRequest (session_state LedClient_init calls) color state now)))
           (req_request_id (snd (sendRequest (session_state LedClient_init calls) color state now)))
           = Some now"
proof -
  have s: "sorted_wrt (<) (map req_request_id (session_requests LedClient_init calls))"
    using assms by (rule init_ids_sorted)
  then have d: "distinct (map req_request_id (session_requests LedClient_init calls))"
    by (simp add: strict_sorted_iff)
  have p: "list_all (\<lambda>k. 0 < k) (map req_request_id (session_requests LedClient_init calls))"
    using assms by (rule init_ids_positive)
  have t: "map_of (pending_requests
                   (fst (sendRequest (session_state LedClient_init calls) color state now)))
           (req_request_id (snd (sendRequest (session_state LedClient_init calls) color state now)))
           = Some now"
    by (simp add: sendRequest_table sendRequest_request map_of_map_assign [OF session_init_wf])
  show ?thesis
    using s d p t init_ids [of calls] by (simp add: sendRequest_request del: of_nat_Suc)
qed

theorem sendRequest_ids_increasing_witness:
  "sends [SendRequest RED True 0, SendRequest GREEN True 500000000,
          CheckResponses [] 600000000, SendRequest BLUE True 1000000000] < 2 ^ 64
   \<and> map req_request_id
        (session_requests LedClient_init
           [SendRequest RED True 0, SendRequest GREEN True 500000000,
            CheckResponses [] 600000000, SendRequest BLUE True 1000000000]) = [1, 2, 3]
   \<and> sorted_wrt (<) [1 :: u64, 2, 3]
   \<and> pending_requests
        (fst (sendRequest
           (session_state LedClient_init
              [SendRequest RED True 0, SendRequest GREEN True 500000000,
               CheckResponses [] 600000000, SendRequest BLUE True 1000000000])
           RED False 1200000000))
       = [(1, 0), (2, 500000000), (3, 1000000000), (4, 1200000000)]"
proof -
  let ?calls = "[SendRequest RED True 0, SendRequest GREEN True 500000000,
          CheckResponses [] 600000000, SendRequest BLUE True 1000000000]"
  have h: "sends ?calls < 2 ^ 64"
    by (simp add: sends_def)
  have n: "sends ?calls = 3"
    by (simp add: sends_def)
  have u: "[0..<3] = [0, 1, 2]"
    by (simp add: upt_rec)
  have e: "pending_requests (fst (sendRequest (session_state LedClient_init ?calls)
              RED False 1200000000))
       = [(1, 0), (2, 500000000), (3, 1000000000), (4, 1200000000)]"
    by (simp add: session_state_def LedClient_init_def sendRequest_def checkResponses_def
                  five_seconds_def
                  checkResponses_sweep.simps [of 0 _ "[(1, 0), (2, 500000000)]"]
                  checkResponses_sweep.simps [of "Suc 0" _ "[(1, 0), (2, 500000000)]"]
                  checkResponses_sweep.simps [of "Suc (Suc 0)" _ "[(1, 0), (2, 500000000)]"])
  show ?thesis
    using sendRequest_ids_increasing [OF h, of RED False 1200000000] h e
    unfolding n u by simp
qed

text \<open>
  Against C4 as stated: the counter does not start above zero, and it is an
  \<open>unsigned long\<close>, so the call number \<open>2 ^ 64\<close> of a session wraps it to zero: that
  request carries the id 0, after the id \<open>2 ^ 64 - 1\<close> of the request before it.
\<close>

theorem sendRequest_ids_wrap:
  "request_counter LedClient_init = 0
   \<and> map req_request_id
        (session_requests LedClient_init (replicate (2 ^ 64) (SendRequest RED True 0)))
       ! (2 ^ 64 - 2) = 18446744073709551615
   \<and> map req_request_id
        (session_requests LedClient_init (replicate (2 ^ 64) (SendRequest RED True 0)))
       ! (2 ^ 64 - 1) = 0"
proof -
  let ?calls = "replicate (2 ^ 64) (SendRequest RED True 0)"
  have n: "sends ?calls = 2 ^ 64"
    by (rule sends_replicate)
  have a: "map req_request_id (session_requests LedClient_init ?calls) ! (2 ^ 64 - 2)
             = word_of_nat (Suc (2 ^ 64 - 2))"
    by (rule init_ids_nth) (simp only: n, simp)
  have b: "map req_request_id (session_requests LedClient_init ?calls) ! (2 ^ 64 - 1)
             = word_of_nat (Suc (2 ^ 64 - 1))"
    by (rule init_ids_nth) (simp only: n, simp)
  have a': "(word_of_nat (Suc (2 ^ 64 - 2)) :: u64) = 18446744073709551615"
    by simp
  have b': "(word_of_nat (Suc (2 ^ 64 - 1)) :: u64) = 0"
    by simp
  show ?thesis
    unfolding a b a' b' by (simp add: LedClient_init_def)
qed




text \<open>
  C2, as the code has it. The sweep removes exactly the entries with
  \<open>now - issue > five_seconds\<close> (strictly greater), reports each of them once, in key
  order, and keeps every other entry: the loop computes this partition of the table, so
  erasing during the traversal skips nothing and visits nothing twice. Over a run of ticks
  in which no valid response for \<open>r\<close> arrives: while \<open>now - issue \<le> five_seconds\<close> no
  timeout is reported for \<open>r\<close> and its entry stays; the first tick with
  \<open>now - issue > five_seconds\<close> reports it exactly once and removes the entry; the ticks
  after it report nothing for \<open>r\<close>.
\<close>

theorem sweep_times_out_once:
  assumes "map_wf (pending_requests cl)" and "map_of (pending_requests cl) r = Some issue"
    and "list_all (\<lambda>x. r \<notin> answered_ids (fst x) \<and> snd x - issue \<le> five_seconds) pre"
    and "r \<notin> answered_ids samples" and "now - issue > five_seconds"
  shows "checkResponses_sweep 0 now' m
           = (filter (\<lambda>e. \<not> now' - snd e > five_seconds) m,
              map (TimeoutEvent \<circ> fst) (filter (\<lambda>e. now' - snd e > five_seconds) m))
       \<and> timeout_count r (session_events cl (map tick pre)) = 0
       \<and> map_of (pending_requests (session_state cl (map tick pre))) r = Some issue
       \<and> timeout_count r (snd (checkResponses (session_state cl (map tick pre)) samples now)) = 1
       \<and> r \<notin> pending_ids (pending_requests
                  (fst (checkResponses (session_state cl (map tick pre)) samples now)))
       \<and> timeout_count r (session_events cl (map tick (pre @ (samples, now) # post))) = 1
       \<and> match_count r (session_events cl (map tick (pre @ (samples, now) # post))) = 0"
proof -
  let ?cl1 = "session_state cl (map tick pre)"
  let ?cl2 = "fst (checkResponses ?cl1 samples now)"
  note q = quiet_ticks [OF assms(1,2,3)]
  have w1: "map_wf (pending_requests ?cl1)" and l1: "map_of (pending_requests ?cl1) r = Some issue"
    using q by simp_all
  have a: "checkResponses_sweep 0 now' m
           = (filter (\<lambda>e. \<not> now' - snd e > five_seconds) m,
              map (TimeoutEvent \<circ> fst) (filter (\<lambda>e. now' - snd e > five_seconds) m))"
    using sweep_eq [of 0 now' m] by (simp add: timed_out_def [abs_def])
  have t: "timeout_count r (snd (checkResponses ?cl1 samples now)) = 1"
    using l1 assms(4,5) by (simp add: checkResponses_timeout_count [OF w1])
  have mt: "match_count r (snd (checkResponses ?cl1 samples now)) = 0"
    using l1 assms(4) by (simp add: checkResponses_match_count [OF w1])
  have l2: "map_of (pending_requests ?cl2) r = None"
    using l1 assms(5) by (simp add: checkResponses_lookup [OF w1])
  then have g: "r \<notin> pending_ids (pending_requests ?cl2)"
    by (auto simp: pending_ids_dom)
  have w2: "map_wf (pending_requests ?cl2)"
    using w1 by (rule checkResponses_wf)
  note p = gone_ticks [OF w2 l2, of post]
  have ev: "session_events cl (map tick (pre @ (samples, now) # post))
              = session_events cl (map tick pre)
                @ snd (checkResponses ?cl1 samples now)
                @ session_events ?cl2 (map tick post)"
    by (simp add: session_append tick_def session_Check)
  show ?thesis
    unfolding ev using a q t mt g p
    by (simp add: timeout_count_append match_count_append)
qed

theorem sweep_times_out_once_witness:
  "map_wf (pending_requests \<lparr>request_counter = 2, pending_requests = [(1, 0), (2, 500000000)]\<rparr>)
   \<and> map_of (pending_requests \<lparr>request_counter = 2, pending_requests = [(1, 0), (2, 500000000)]\<rparr>) 2
       = Some 500000000
   \<and> list_all (\<lambda>x. 2 \<notin> answered_ids (fst x) \<and> snd x - 500000000 \<le> five_seconds)
        [([], 5100000000), ([], 5500000000)]
   \<and> 2 \<notin> answered_ids []
   \<and> 5500000001 - 500000000 > five_seconds
   \<and> session_events \<lparr>request_counter = 2, pending_requests = [(1, 0), (2, 500000000)]\<rparr>
        (map tick [([], 5100000000), ([], 5500000000), ([], 5500000001), ([], 5600000000)])
       = [TimeoutEvent 1, TimeoutEvent 2]
   \<and> timeout_count 2 [TimeoutEvent 1, TimeoutEvent 2] = 1"
proof -
  let ?cl = "\<lparr>request_counter = 2, pending_requests = [(1, 0), (2, 500000000)]\<rparr>"
  have h1: "map_wf (pending_requests ?cl)"
    by (simp add: map_wf_def)
  have h2: "map_of (pending_requests ?cl) 2 = Some 500000000"
    by simp
  have h3: "list_all (\<lambda>x. 2 \<notin> answered_ids (fst x) \<and> snd x - 500000000 \<le> five_seconds)
        [([], 5100000000), ([], 5500000000)]"
    by (simp add: answered_ids_def five_seconds_def)
  have h4: "2 \<notin> answered_ids []"
    by (simp add: answered_ids_def)
  have h5: "5500000001 - 500000000 > five_seconds"
    by (simp add: five_seconds_def)
  have e: "session_events ?cl
        (map tick [([], 5100000000), ([], 5500000000), ([], 5500000001), ([], 5600000000)])
       = [TimeoutEvent 1, TimeoutEvent 2]"
    by (simp add: session_events_def tick_def checkResponses_def five_seconds_def map_erase_def
                  checkResponses_sweep.simps [of _ _ "[(1, 0), (2, 500000000)]"]
                  checkResponses_sweep.simps [of _ _ "[(2, 500000000)]"]
                  checkResponses_sweep.simps [of _ _ "[]"])
  show ?thesis
    using sweep_times_out_once [OF h1 h2 h3 h4 h5, of 0 "[]" "[([], 5600000000)]"] h1 h2 h3 h4 h5 e
    by (simp add: timeout_count_def)
qed

text \<open>
  Against C2 as stated (\<open>now - issue \<ge>\<close> deadline): at exactly five seconds the sweep
  reports nothing and keeps the entry; one clock tick later it reports the timeout.
\<close>

theorem sweep_at_exactly_five_seconds:
  "5000000000 - 0 \<ge> five_seconds
   \<and> checkResponses_sweep 0 5000000000 [(1, 0)] = ([(1, 0)], [])
   \<and> checkResponses \<lparr>request_counter = 1, pending_requests = [(1, 0)]\<rparr> [] 5000000000
       = (\<lparr>request_counter = 1, pending_requests = [(1, 0)]\<rparr>, [])
   \<and> checkResponses \<lparr>request_counter = 1, pending_requests = [(1, 0)]\<rparr> [] 5000000001
       = (\<lparr>request_counter = 1, pending_requests = []\<rparr>, [TimeoutEvent 1])"
  by (simp add: checkResponses_def five_seconds_def map_erase_def
                checkResponses_sweep.simps [of _ _ "[(1, 0)]"]
                checkResponses_sweep.simps [of _ _ "[]"])

end
